theory Spec2Isabelle
  imports Main "HOL-Library.Sublist"
begin

section \<open>The watchlist edit screen of \<open>src/Delete.tsx\<close>\<close>

text \<open>
  The screen keeps an ordered list of watchlist entries (\<open>stocks\<close>), a record of
  deletion marks keyed by token (\<open>deleteMap\<close>), a remembered token order
  (\<open>lastOrderRef\<close>), a saving flag, a ready flag and an error modal.  Two handlers,
  \<open>onDragEnd\<close> and \<open>handleSave\<close>, are asynchronous: each runs synchronously up to
  its \<open>await\<close> of a remote call and is resumed when that call settles.  The model
  passes the state explicitly, splits each asynchronous handler at its \<open>await\<close>, and
  records every call to an outside collaborator in a trace.

  A handler is the one of the latest render, so it reads the state of the moment it is
  called; what it uses after its \<open>await\<close> is what its closure captured.  Of the
  collaborators only the awaited remote call can fail.
\<close>

subsection \<open>Data\<close>

text \<open>
  \<open>MarketWatchItem\<close> is declared outside this file; the screen reads the fields
  \<open>token\<close>, \<open>symbol\<close> and \<open>name\<close>, each of which it treats as possibly missing
  (\<open>item.token || ''\<close>, \<open>item.symbol || 'N/A'\<close>, \<open>item.name || ''\<close>).
\<close>

record MarketWatchItem =
  token :: "string option"
  symbol :: "string option"
  name :: "string option"

text \<open>\<open>item.token || ''\<close>: a missing or empty token reads as the empty string.\<close>

definition keyExtractor :: "MarketWatchItem \<Rightarrow> string" where
  "keyExtractor item = (case token item of None \<Rightarrow> [] | Some t \<Rightarrow> t)"

record ErrorModal =
  visible :: bool
  title :: string
  message :: string

text \<open>Calls that leave the component, in the order they are made.\<close>

datatype call =
    RearrangeWatchlist string "string list" string
  | BulkDeleteFromWatchlist string "string list" string
  | SetData string "MarketWatchItem list"
  | ConsoleError string
  | GoBack

text \<open>How an awaited remote call settles.\<close>

datatype outcome = Resolved | Rejected

text \<open>
  A handler suspended at its \<open>await\<close>, with what its closure holds:
  \<open>onDragEnd\<close> keeps \<open>watchlistId\<close> and \<open>newOrder\<close>; \<open>handleSave\<close> keeps
  \<open>watchlistId\<close>, \<open>itemsToDelete\<close> and the \<open>stocks\<close> of the render it was
  created in.
\<close>

datatype pending =
    AwaitRearrange string "MarketWatchItem list"
  | AwaitBulkDelete string "string list" "MarketWatchItem list"

text \<open>
  The component state (\<open>useState\<close>, \<open>useObservable\<close>, \<open>useRef\<close>), the deferred
  \<open>InteractionManager\<close> task, and the collaborators the handlers read: the shared
  store, the user name of the auth store, and the trace of outside calls.
  \<open>deleteMap\<close> is a \<open>Record<string, boolean>\<close>: an association list with one
  entry per key.  Entries are kept in the order the keys were first written; JavaScript
  enumerates integer-like keys first, which changes the order of \<open>itemsToDelete\<close>
  only, and nothing below depends on that order.
\<close>

record screen =
  stocks :: "MarketWatchItem list"
  isReady :: bool
  deleteMap :: "(string \<times> bool) list"
  isSaving :: bool
  errorModal :: ErrorModal
  lastOrderRef :: "string list"
  task :: bool
  store :: "string \<rightharpoonup> MarketWatchItem list"
  username :: string
  calls :: "call list"

text \<open>The state of a freshly mounted component, over a given store and user name.\<close>

definition initial :: "(string \<rightharpoonup> MarketWatchItem list) \<Rightarrow> string \<Rightarrow> screen" where
  "initial st u =
     \<lparr>stocks = [], isReady = False, deleteMap = [], isSaving = False,
      errorModal = \<lparr>visible = False, title = [], message = []\<rparr>,
      lastOrderRef = [], task = False, store = st, username = u, calls = []\<rparr>"

subsection \<open>The shared store\<close>

text \<open>
  Modelled from the spec: \<open>setData\<close> of \<open>store/marketwatch\<close> is not in this file.
  The spec gives it as \<open>setData(watchlistId, orderedItems) -> void\<close> (replace), and
  the read \<open>marketWatchStore.watchlists[watchlistId]?.peek()?.data\<close> as a
  point-in-time read of the ordered items of that watchlist.
\<close>

definition setData :: "string \<Rightarrow> MarketWatchItem list \<Rightarrow> screen \<Rightarrow> screen" where
  "setData w items s =
     s\<lparr>store := (store s)(w \<mapsto> items), calls := calls s @ [SetData w items]\<rparr>"

text \<open>\<open>marketWatchStore.watchlists[watchlistId]?.peek()?.data || []\<close>\<close>

definition peekData :: "string \<Rightarrow> screen \<Rightarrow> MarketWatchItem list" where
  "peekData w s = (case store s w of None \<Rightarrow> [] | Some d \<Rightarrow> d)"

subsection \<open>Selection marks\<close>

text \<open>\<open>deleteMap[token]?.get() ?? false\<close>: a key that was never written reads false.\<close>

definition isMarked :: "(string \<times> bool) list \<Rightarrow> string \<Rightarrow> bool" where
  "isMarked m k = (case map_of m k of None \<Rightarrow> False | Some b \<Rightarrow> b)"

text \<open>
  \<open>deleteMap[token].set(v)\<close>: overwrite the entry of an existing key in place, add a
  new key at the end.
\<close>

fun setKey :: "string \<Rightarrow> bool \<Rightarrow> (string \<times> bool) list \<Rightarrow> (string \<times> bool) list" where
  "setKey k v [] = [(k, v)]"
| "setKey k v (p # ps) = (if fst p = k then (k, v) # ps else p # setKey k v ps)"

text \<open>The row's \<open>toggle\<close>: \<open>deleteMap[token]?.set(!isMarked)\<close>.\<close>

definition toggle :: "string \<Rightarrow> (string \<times> bool) list \<Rightarrow> (string \<times> bool) list" where
  "toggle k m = setKey k (\<not> isMarked m k) m"

text \<open>\<open>Object.values(deleteMap.get()).filter(Boolean).length\<close>\<close>

definition selectedCount :: "(string \<times> bool) list \<Rightarrow> nat" where
  "selectedCount m = length (filter (\<lambda>b. b) (map snd m))"

text \<open>
  \<open>Object.entries(deleteMap.peek()).filter(([_, value]) => value).map(([key]) => key)\<close>
\<close>

definition itemsToDelete :: "(string \<times> bool) list \<Rightarrow> string list" where
  "itemsToDelete m = map fst (filter (\<lambda>(_, value). value) m)"

subsection \<open>Lifecycle\<close>

text \<open>The effect body: \<open>InteractionManager.runAfterInteractions\<close> schedules the load.\<close>

definition scheduleTask :: "screen \<Rightarrow> screen" where
  "scheduleTask s = s\<lparr>task := True\<rparr>"

text \<open>The deferred task, which runs only while it is still scheduled.\<close>

definition runTask :: "string \<Rightarrow> screen \<Rightarrow> screen" where
  "runTask w s =
     (if task s then
        (let initialData = peekData w s in
           s\<lparr>stocks := initialData,
             lastOrderRef := map keyExtractor initialData,
             isReady := True,
             task := False\<rparr>)
      else s)"

text \<open>
  The effect's cleanup: \<open>task.cancel(); setStocks([]); setIsReady(false);
  deleteMap.set({})\<close>.
\<close>

definition cleanup :: "screen \<Rightarrow> screen" where
  "cleanup s = s\<lparr>task := False, stocks := [], isReady := False, deleteMap := []\<rparr>"

subsection \<open>Reorder\<close>

text \<open>
  Reading a JavaScript array at an index: \<open>undefined\<close> (here \<open>None\<close>) out of range.
\<close>

fun at :: "'a list \<Rightarrow> nat \<Rightarrow> 'a option" where
  "at [] i = None"
| "at (x # xs) 0 = Some x"
| "at (x # xs) (Suc i) = at xs i"

text \<open>\<open>Array.prototype.some\<close> with the element and its index, scanning from index \<open>i\<close>.\<close>

fun someFrom :: "('a \<Rightarrow> nat \<Rightarrow> bool) \<Rightarrow> nat \<Rightarrow> 'a list \<Rightarrow> bool" where
  "someFrom p i [] = False"
| "someFrom p i (x # xs) = (p x i \<or> someFrom p (Suc i) xs)"

text \<open>
  \<open>newTokens.some((t, i) => t !== lastOrderRef.current[i])\<close>; a string is never
  \<open>undefined\<close>, so a position beyond the end of \<open>lastOrderRef.current\<close> differs.
\<close>

definition hasChanged :: "string list \<Rightarrow> string list \<Rightarrow> bool" where
  "hasChanged newTokens lastOrder = someFrom (\<lambda>t i. Some t \<noteq> at lastOrder i) 0 newTokens"

text \<open>
  \<open>onDragEnd\<close> up to its \<open>await\<close>: nothing happens when no position changed;
  otherwise the new order is applied, remembered, and sent to the remote service.
\<close>

definition onDragEnd :: "string \<Rightarrow> MarketWatchItem list \<Rightarrow> screen \<Rightarrow> screen \<times> pending option" where
  "onDragEnd w newOrder s =
     (let newTokens = map keyExtractor newOrder in
        if \<not> hasChanged newTokens (lastOrderRef s) then (s, None)
        else
          (s\<lparr>stocks := newOrder,
             lastOrderRef := newTokens,
             calls := calls s @ [RearrangeWatchlist w newTokens (username s)]\<rparr>,
           Some (AwaitRearrange w newOrder)))"

subsection \<open>Bulk delete\<close>

text \<open>
  \<open>handleSave\<close> up to its \<open>await\<close>: the marked keys are read, the guard returns
  when a save is in flight or nothing is marked, otherwise the flag is set and the
  remote delete is called.
\<close>

definition handleSave :: "string \<Rightarrow> screen \<Rightarrow> screen \<times> pending option" where
  "handleSave w s =
     (let items = itemsToDelete (deleteMap s) in
        if isSaving s \<or> length items = 0 then (s, None)
        else
          (s\<lparr>isSaving := True,
             calls := calls s @ [BulkDeleteFromWatchlist w items (username s)]\<rparr>,
           Some (AwaitBulkDelete w items (stocks s))))"

subsection \<open>Resuming a suspended handler\<close>

text \<open>
  The rest of \<open>onDragEnd\<close>: \<open>setData\<close> after the call resolved, \<open>console.error\<close>
  in the \<open>catch\<close>.  The rest of \<open>handleSave\<close>: on success the marked items are
  filtered out of the captured \<open>stocks\<close>, the result is stored, shared, remembered,
  the marks are cleared and the screen is left; the \<open>catch\<close> logs and shows the
  error; \<open>finally\<close> clears the saving flag.
\<close>

fun settle :: "outcome \<Rightarrow> pending \<Rightarrow> screen \<Rightarrow> screen" where
  "settle Resolved (AwaitRearrange w newOrder) s = setData w newOrder s"
| "settle Rejected (AwaitRearrange w newOrder) s =
     s\<lparr>calls := calls s @ [ConsoleError ''Error rearranging:'']\<rparr>"
| "settle Resolved (AwaitBulkDelete w items captured) s =
     (let updated = filter (\<lambda>x. keyExtractor x \<notin> set items) captured;
          s1 = s\<lparr>stocks := updated\<rparr>;
          s2 = setData w updated s1;
          s3 = s2\<lparr>lastOrderRef := map keyExtractor updated\<rparr>;
          s4 = s3\<lparr>deleteMap := []\<rparr>;
          s5 = s4\<lparr>calls := calls s4 @ [GoBack]\<rparr>
      in s5\<lparr>isSaving := False\<rparr>)"
| "settle Rejected (AwaitBulkDelete w items captured) s =
     (let s1 = s\<lparr>calls := calls s @ [ConsoleError ''Error deleting:'']\<rparr>;
          s2 = s1\<lparr>errorModal := \<lparr>visible = True, title = ''Error'',
                                 message = ''Failed to delete items''\<rparr>\<rparr>
      in s2\<lparr>isSaving := False\<rparr>)"

text \<open>A handler run to its end, the awaited call settling before anything else happens.\<close>

definition complete :: "outcome \<Rightarrow> screen \<times> pending option \<Rightarrow> screen" where
  "complete r sp = (case snd sp of None \<Rightarrow> fst sp | Some p \<Rightarrow> settle r p (fst sp))"

subsection \<open>The screen as a machine over events\<close>

text \<open>
  What can happen to a mounted screen: the effect runs, the deferred task runs, the
  cleanup runs, a row is toggled, a drag ends, Save is pressed, and the remote call of
  a suspended handler settles (the handler at that index in the list of suspended
  ones).  No event is restricted by what is rendered, so the machine reaches at least
  the states the screen does.
\<close>

datatype event =
    Effect
  | Task
  | Cleanup
  | Toggle string
  | DragEnd "MarketWatchItem list"
  | Save
  | Settle nat outcome

definition suspend :: "pending list \<Rightarrow> screen \<times> pending option \<Rightarrow> screen \<times> pending list" where
  "suspend ps sp = (fst sp, (case snd sp of None \<Rightarrow> ps | Some p \<Rightarrow> ps @ [p]))"

fun step :: "string \<Rightarrow> screen \<times> pending list \<Rightarrow> event \<Rightarrow> screen \<times> pending list" where
  "step w (s, ps) Effect = (scheduleTask s, ps)"
| "step w (s, ps) Task = (runTask w s, ps)"
| "step w (s, ps) Cleanup = (cleanup s, ps)"
| "step w (s, ps) (Toggle k) = (s\<lparr>deleteMap := toggle k (deleteMap s)\<rparr>, ps)"
| "step w (s, ps) (DragEnd newOrder) = suspend ps (onDragEnd w newOrder s)"
| "step w (s, ps) Save = suspend ps (handleSave w s)"
| "step w (s, ps) (Settle i r) =
     (if i < length ps then (settle r (ps ! i) s, take i ps @ drop (Suc i) ps)
      else (s, ps))"

definition run :: "string \<Rightarrow> screen \<times> pending list \<Rightarrow> event list \<Rightarrow> screen \<times> pending list" where
  "run w c evs = foldl (step w) c evs"

subsection \<open>A sample watchlist\<close>

text \<open>
  A watchlist \<open>wl\<close> of four entries with tokens A, B, C, D, the screen freshly
  mounted over it, the screen after its initial load, and the loaded screen with A and
  C marked for deletion.
\<close>

definition entry :: "string \<Rightarrow> MarketWatchItem" where
  "entry t = \<lparr>token = Some t, symbol = Some t, name = None\<rparr>"

definition abcd :: "MarketWatchItem list" where
  "abcd = [entry ''A'', entry ''B'', entry ''C'', entry ''D'']"

definition fresh :: screen where
  "fresh = initial [''wl'' \<mapsto> abcd] ''user''"

definition loaded :: screen where
  "loaded = runTask ''wl'' (scheduleTask fresh)"

definition marked :: screen where
  "marked = loaded\<lparr>deleteMap := toggle ''C'' (toggle ''A'' (deleteMap loaded))\<rparr>"

text \<open>
  A drag that ends while the bulk delete is in flight: the watchlist is loaded, A and C
  are marked, Save is pressed, and the list is dragged into the reverse order before
  the delete call settles.
\<close>

definition dragDuringSave :: "event list" where
  "dragDuringSave = [Effect, Task, Toggle ''A'', Toggle ''C'', Save, DragEnd (rev abcd)]"

section \<open>Change detection\<close>

lemma at_nth: "at xs i = (if i < length xs then Some (xs ! i) else None)"
  by (induction xs i rule: at.induct) simp_all

lemma someFrom_iff: "someFrom p i xs \<longleftrightarrow> (\<exists>j < length xs. p (xs ! j) (i + j))"
proof (induction xs arbitrary: i)
  case Nil
  show ?case by simp
next
  case (Cons x xs)
  have "(\<exists>j < Suc (length xs). p ((x # xs) ! j) (i + j)) \<longleftrightarrow>
        p x i \<or> (\<exists>j < length xs. p (xs ! j) (Suc i + j))"
    by (simp add: Ex_less_Suc2)
  with Cons show ?case by simp
qed

lemma differs_at: "(Some t \<noteq> at lo j) = (j < length lo \<longrightarrow> lo ! j \<noteq> t)"
  by (cases "j < length lo") (auto simp: at_nth)

lemma hasChanged_iff:
  "hasChanged ts lo \<longleftrightarrow> (\<exists>j < length ts. j < length lo \<longrightarrow> lo ! j \<noteq> ts ! j)"
  by (simp only: hasChanged_def someFrom_iff differs_at add_0)

lemma unchanged_iff_prefix: "\<not> hasChanged ts lo \<longleftrightarrow> prefix ts lo"
proof
  assume h: "\<not> hasChanged ts lo"
  then have all: "\<forall>j < length ts. j < length lo \<and> lo ! j = ts ! j"
    unfolding hasChanged_iff by blast
  have len: "length ts \<le> length lo"
  proof (rule ccontr)
    assume "\<not> length ts \<le> length lo"
    then have "length lo < length ts" by simp
    with all show False by blast
  qed
  have "take (length ts) lo = ts"
    by (rule nth_equalityI) (use all len in auto)
  then show "prefix ts lo"
    by (metis take_is_prefix)
next
  assume "prefix ts lo"
  then obtain zs where "lo = ts @ zs" by (auto simp: prefix_def)
  then show "\<not> hasChanged ts lo"
    unfolding hasChanged_iff by (simp add: nth_append)
qed

section \<open>Reorder: the no-op\<close>

text \<open>
  Claim C1.  When the tokens of the candidate order are, position by position, the
  remembered order \<open>lastOrderRef\<close>, \<open>onDragEnd\<close> returns the state it was given and
  suspends nothing: no field of the component changes, the trace of outside calls
  gets no entry (no rearrange call, no \<open>setData\<close>), and the shared store is the same.
\<close>

theorem onDragEnd_same_order_noop:
  assumes "map keyExtractor newOrder = lastOrderRef s"
  shows "onDragEnd w newOrder s = (s, None) \<and> complete r (onDragEnd w newOrder s) = s"
proof -
  have "prefix (map keyExtractor newOrder) (lastOrderRef s)"
    using assms by simp
  then have "\<not> hasChanged (map keyExtractor newOrder) (lastOrderRef s)"
    by (simp only: unchanged_iff_prefix)
  then have "onDragEnd w newOrder s = (s, None)"
    by (simp add: onDragEnd_def)
  then show ?thesis
    by (simp add: complete_def)
qed

lemma loaded_fields:
  "stocks loaded = abcd"
  "lastOrderRef loaded = [''A'', ''B'', ''C'', ''D'']"
  "deleteMap loaded = []"
  "isSaving loaded = False"
  "isReady loaded = True"
  "task loaded = False"
  "calls loaded = []"
  "store loaded ''wl'' = Some abcd"
  "username loaded = ''user''"
  by (simp_all add: loaded_def fresh_def runTask_def scheduleTask_def initial_def peekData_def
      abcd_def entry_def keyExtractor_def Let_def)

lemma keys_abcd: "map keyExtractor abcd = [''A'', ''B'', ''C'', ''D'']"
  by (simp add: abcd_def entry_def keyExtractor_def)

theorem onDragEnd_same_order_noop_witness:
  "map keyExtractor abcd = lastOrderRef loaded
   \<and> onDragEnd ''wl'' abcd loaded = (loaded, None)
   \<and> complete Resolved (onDragEnd ''wl'' abcd loaded) = loaded"
proof -
  have h: "map keyExtractor abcd = lastOrderRef loaded"
    by (simp add: keys_abcd loaded_fields)
  from onDragEnd_same_order_noop [OF h, of "''wl''" Resolved] h show ?thesis
    by blast
qed

section \<open>Reorder: the optimistic update\<close>

lemma differs_hasChanged:
  assumes "i < length newOrder"
    and "i < length lo \<longrightarrow> lo ! i \<noteq> keyExtractor (newOrder ! i)"
  shows "hasChanged (map keyExtractor newOrder) lo"
  unfolding hasChanged_iff using assms by (intro exI [of _ i]) simp

lemma onDragEnd_changed:
  assumes "hasChanged (map keyExtractor newOrder) (lastOrderRef s)"
  shows "onDragEnd w newOrder s =
     (s\<lparr>stocks := newOrder,
        lastOrderRef := map keyExtractor newOrder,
        calls := calls s @ [RearrangeWatchlist w (map keyExtractor newOrder) (username s)]\<rparr>,
      Some (AwaitRearrange w newOrder))"
  using assms by (simp add: onDragEnd_def Let_def)

text \<open>
  Claim C2.  When the candidate differs from \<open>lastOrderRef\<close> at one of its
  positions (the remembered order has another token there, or no token at all),
  \<open>onDragEnd\<close> has, at the moment it suspends on the rearrange call, already put the
  candidate into \<open>stocks\<close> and its tokens into \<open>lastOrderRef\<close>, while the shared
  store is still untouched; when the call resolves, the candidate items are written to
  the shared store under the watchlist id.
\<close>

theorem onDragEnd_changed_optimistic:
  assumes "i < length newOrder"
    and "i < length (lastOrderRef s) \<longrightarrow> lastOrderRef s ! i \<noteq> keyExtractor (newOrder ! i)"
  shows "stocks (fst (onDragEnd w newOrder s)) = newOrder
    \<and> lastOrderRef (fst (onDragEnd w newOrder s)) = map keyExtractor newOrder
    \<and> calls (fst (onDragEnd w newOrder s)) =
        calls s @ [RearrangeWatchlist w (map keyExtractor newOrder) (username s)]
    \<and> store (fst (onDragEnd w newOrder s)) = store s
    \<and> snd (onDragEnd w newOrder s) = Some (AwaitRearrange w newOrder)
    \<and> store (settle Resolved (AwaitRearrange w newOrder) s') w = Some newOrder
    \<and> calls (settle Resolved (AwaitRearrange w newOrder) s') = calls s' @ [SetData w newOrder]
    \<and> stocks (complete Resolved (onDragEnd w newOrder s)) = newOrder
    \<and> lastOrderRef (complete Resolved (onDragEnd w newOrder s)) = map keyExtractor newOrder
    \<and> store (complete Resolved (onDragEnd w newOrder s)) w = Some newOrder"
proof -
  have "hasChanged (map keyExtractor newOrder) (lastOrderRef s)"
    using assms by (rule differs_hasChanged)
  then show ?thesis
    by (simp add: onDragEnd_changed complete_def setData_def)
qed

lemma dcba: "map keyExtractor (rev abcd) = [''D'', ''C'', ''B'', ''A'']"
  by (simp add: abcd_def entry_def keyExtractor_def)

theorem onDragEnd_changed_optimistic_witness:
  "(0::nat) < length (rev abcd)
   \<and> lastOrderRef loaded ! 0 \<noteq> keyExtractor (rev abcd ! 0)
   \<and> stocks (fst (onDragEnd ''wl'' (rev abcd) loaded)) = rev abcd
   \<and> lastOrderRef (fst (onDragEnd ''wl'' (rev abcd) loaded)) = [''D'', ''C'', ''B'', ''A'']
   \<and> store (fst (onDragEnd ''wl'' (rev abcd) loaded)) ''wl'' = Some abcd
   \<and> store (complete Resolved (onDragEnd ''wl'' (rev abcd) loaded)) ''wl'' = Some (rev abcd)"
proof -
  have h1: "(0::nat) < length (rev abcd)"
    by (simp add: abcd_def)
  have h2: "lastOrderRef loaded ! 0 \<noteq> keyExtractor (rev abcd ! 0)"
    by (simp add: loaded_fields abcd_def entry_def keyExtractor_def)
  then have h2': "0 < length (lastOrderRef loaded) \<longrightarrow>
      lastOrderRef loaded ! 0 \<noteq> keyExtractor (rev abcd ! 0)"
    by simp
  from onDragEnd_changed_optimistic [OF h1 h2', of "''wl''" loaded] h1 h2 show ?thesis
    by (simp add: dcba loaded_fields)
qed

text \<open>
  Claim C5.  When the rearrange call is rejected, the handler only writes to the
  console: \<open>stocks\<close> and \<open>lastOrderRef\<close> keep the candidate order, the error
  modal is as it was, and the shared store is not written.
\<close>

theorem rearrange_failure_logged_only:
  assumes "i < length newOrder"
    and "i < length (lastOrderRef s) \<longrightarrow> lastOrderRef s ! i \<noteq> keyExtractor (newOrder ! i)"
  shows "stocks (complete Rejected (onDragEnd w newOrder s)) = newOrder
    \<and> lastOrderRef (complete Rejected (onDragEnd w newOrder s)) = map keyExtractor newOrder
    \<and> errorModal (complete Rejected (onDragEnd w newOrder s)) = errorModal s
    \<and> store (complete Rejected (onDragEnd w newOrder s)) = store s
    \<and> calls (complete Rejected (onDragEnd w newOrder s)) =
        calls s @ [RearrangeWatchlist w (map keyExtractor newOrder) (username s),
                   ConsoleError ''Error rearranging:'']
    \<and> settle Rejected (AwaitRearrange w newOrder) s' =
        s'\<lparr>calls := calls s' @ [ConsoleError ''Error rearranging:'']\<rparr>"
proof -
  have "hasChanged (map keyExtractor newOrder) (lastOrderRef s)"
    using assms by (rule differs_hasChanged)
  then show ?thesis
    by (simp add: onDragEnd_changed complete_def)
qed

theorem rearrange_failure_logged_only_witness:
  "(0::nat) < length (rev abcd)
   \<and> lastOrderRef loaded ! 0 \<noteq> keyExtractor (rev abcd ! 0)
   \<and> stocks (complete Rejected (onDragEnd ''wl'' (rev abcd) loaded)) = rev abcd
   \<and> lastOrderRef (complete Rejected (onDragEnd ''wl'' (rev abcd) loaded)) = [''D'', ''C'', ''B'', ''A'']
   \<and> visible (errorModal (complete Rejected (onDragEnd ''wl'' (rev abcd) loaded))) = False
   \<and> store (complete Rejected (onDragEnd ''wl'' (rev abcd) loaded)) ''wl'' = Some abcd
   \<and> calls (complete Rejected (onDragEnd ''wl'' (rev abcd) loaded)) =
        [RearrangeWatchlist ''wl'' [''D'', ''C'', ''B'', ''A''] ''user'',
         ConsoleError ''Error rearranging:'']"
proof -
  have h1: "(0::nat) < length (rev abcd)"
    by (simp add: abcd_def)
  have h2: "lastOrderRef loaded ! 0 \<noteq> keyExtractor (rev abcd ! 0)"
    by (simp add: loaded_fields abcd_def entry_def keyExtractor_def)
  then have h2': "0 < length (lastOrderRef loaded) \<longrightarrow>
      lastOrderRef loaded ! 0 \<noteq> keyExtractor (rev abcd ! 0)"
    by simp
  have em: "visible (errorModal loaded) = False"
    by (simp add: loaded_def fresh_def runTask_def scheduleTask_def initial_def Let_def)
  from rearrange_failure_logged_only [OF h1 h2', of "''wl''" loaded] h1 h2 em show ?thesis
    by (simp add: dcba loaded_fields)
qed

text \<open>
  Claim C10.  The comparison ranges over the positions of the candidate only.  A
  candidate whose tokens are a strict prefix of \<open>lastOrderRef\<close> changes nothing and
  calls nothing; a candidate longer than \<open>lastOrderRef\<close> is always applied and
  sent.
\<close>

theorem onDragEnd_compares_candidate_positions:
  "(strict_prefix (map keyExtractor newOrder) (lastOrderRef s) \<longrightarrow>
      onDragEnd w newOrder s = (s, None))
   \<and> (length (lastOrderRef s) < length newOrder \<longrightarrow>
      onDragEnd w newOrder s =
        (s\<lparr>stocks := newOrder,
           lastOrderRef := map keyExtractor newOrder,
           calls := calls s @ [RearrangeWatchlist w (map keyExtractor newOrder) (username s)]\<rparr>,
         Some (AwaitRearrange w newOrder)))"
proof (intro conjI impI)
  assume "strict_prefix (map keyExtractor newOrder) (lastOrderRef s)"
  then have "prefix (map keyExtractor newOrder) (lastOrderRef s)"
    by (rule strict_prefixE) blast
  then have "\<not> hasChanged (map keyExtractor newOrder) (lastOrderRef s)"
    by (simp only: unchanged_iff_prefix)
  then show "onDragEnd w newOrder s = (s, None)"
    by (simp add: onDragEnd_def)
next
  assume len: "length (lastOrderRef s) < length newOrder"
  have "\<not> prefix (map keyExtractor newOrder) (lastOrderRef s)"
  proof
    assume "prefix (map keyExtractor newOrder) (lastOrderRef s)"
    then have "length (map keyExtractor newOrder) \<le> length (lastOrderRef s)"
      by (rule prefix_length_le)
    with len show False by simp
  qed
  then have "hasChanged (map keyExtractor newOrder) (lastOrderRef s)"
    by (simp only: unchanged_iff_prefix [symmetric] not_not)
  then show "onDragEnd w newOrder s =
        (s\<lparr>stocks := newOrder,
           lastOrderRef := map keyExtractor newOrder,
           calls := calls s @ [RearrangeWatchlist w (map keyExtractor newOrder) (username s)]\<rparr>,
         Some (AwaitRearrange w newOrder))"
    by (rule onDragEnd_changed)
qed

theorem onDragEnd_compares_candidate_positions_witness:
  "strict_prefix (map keyExtractor (take 2 abcd)) (lastOrderRef loaded)
   \<and> onDragEnd ''wl'' (take 2 abcd) loaded = (loaded, None)
   \<and> length (lastOrderRef loaded) < length (abcd @ [entry ''A''])
   \<and> stocks (fst (onDragEnd ''wl'' (abcd @ [entry ''A'']) loaded)) = abcd @ [entry ''A'']
   \<and> snd (onDragEnd ''wl'' (abcd @ [entry ''A'']) loaded) =
        Some (AwaitRearrange ''wl'' (abcd @ [entry ''A'']))"
proof -
  have h1: "strict_prefix (map keyExtractor (take 2 abcd)) (lastOrderRef loaded)"
    by (simp add: loaded_fields abcd_def entry_def keyExtractor_def strict_prefix_def)
  have h2: "length (lastOrderRef loaded) < length (abcd @ [entry ''A''])"
    by (simp add: loaded_fields abcd_def)
  from onDragEnd_compares_candidate_positions [of "take 2 abcd" loaded "''wl''"] h1
  have a: "onDragEnd ''wl'' (take 2 abcd) loaded = (loaded, None)"
    by blast
  from onDragEnd_compares_candidate_positions [of "abcd @ [entry ''A'']" loaded "''wl''"] h2
  have b: "onDragEnd ''wl'' (abcd @ [entry ''A'']) loaded =
        (loaded\<lparr>stocks := abcd @ [entry ''A''],
           lastOrderRef := map keyExtractor (abcd @ [entry ''A'']),
           calls := calls loaded @
             [RearrangeWatchlist ''wl'' (map keyExtractor (abcd @ [entry ''A''])) (username loaded)]\<rparr>,
         Some (AwaitRearrange ''wl'' (abcd @ [entry ''A''])))"
    by blast
  from h1 a h2 b show ?thesis
    by simp
qed

section \<open>Selection marks\<close>

lemma map_of_setKey: "map_of (setKey k v m) = (map_of m)(k \<mapsto> v)"
  by (induction m) (auto simp: fun_eq_iff)

lemma keys_setKey: "fst ` set (setKey k v m) = insert k (fst ` set m)"
  by (induction m) auto

lemma distinct_setKey:
  "distinct (map fst m) \<Longrightarrow> distinct (map fst (setKey k v m))"
  by (induction m) (auto simp: keys_setKey)

lemma distinct_toggle: "distinct (map fst m) \<Longrightarrow> distinct (map fst (toggle k m))"
  by (simp add: toggle_def distinct_setKey)

lemma isMarked_iff: "isMarked m k \<longleftrightarrow> map_of m k = Some True"
  by (simp add: isMarked_def split: option.split)

lemma isMarked_toggle: "isMarked (toggle k m) k' = (if k' = k then \<not> isMarked m k else isMarked m k')"
  by (simp add: toggle_def isMarked_def map_of_setKey)

lemma selectedCount_length: "selectedCount m = length (itemsToDelete m)"
  by (induction m) (auto simp: selectedCount_def itemsToDelete_def)

lemma distinct_itemsToDelete: "distinct (map fst m) \<Longrightarrow> distinct (itemsToDelete m)"
  by (simp add: itemsToDelete_def distinct_map_filter)

lemma set_itemsToDelete:
  assumes "distinct (map fst m)"
  shows "set (itemsToDelete m) = {k. isMarked m k}"
proof -
  have "k \<in> set (itemsToDelete m) \<longleftrightarrow> (k, True) \<in> set m" for k
    by (force simp: itemsToDelete_def)
  moreover have "(k, True) \<in> set m \<longleftrightarrow> map_of m k = Some True" for k
    using assms by simp
  ultimately show ?thesis
    by (auto simp: isMarked_iff)
qed

text \<open>
  Claim C7.  For a record of marks (one entry per key), \<open>selectedCount\<close> is the
  number of keys whose value is true; a toggle negates the mark of its key, a key
  never written becomes true, other keys keep their entry, and toggling twice gives
  every key the mark it had.
\<close>

theorem selection_count_and_toggle:
  assumes "distinct (map fst m)"
  shows "selectedCount m = card {k. map_of m k = Some True}
    \<and> isMarked (toggle k m) k = (\<not> isMarked m k)
    \<and> (map_of m k = None \<longrightarrow> map_of (toggle k m) k = Some True)
    \<and> (k' \<noteq> k \<longrightarrow> map_of (toggle k m) k' = map_of m k')
    \<and> isMarked (toggle k (toggle k m)) k'' = isMarked m k''
    \<and> distinct (map fst (toggle k m))"
proof -
  have "card {k. isMarked m k} = length (itemsToDelete m)"
    using assms distinct_card [OF distinct_itemsToDelete, of m]
    by (simp add: set_itemsToDelete)
  then have "selectedCount m = card {k. map_of m k = Some True}"
    by (simp add: selectedCount_length isMarked_iff)
  moreover have "map_of m k = None \<longrightarrow> map_of (toggle k m) k = Some True"
    by (simp add: toggle_def map_of_setKey isMarked_def)
  moreover have "k' \<noteq> k \<longrightarrow> map_of (toggle k m) k' = map_of m k'"
    by (simp add: toggle_def map_of_setKey)
  moreover have "isMarked (toggle k (toggle k m)) k'' = isMarked m k''"
    by (simp add: isMarked_toggle)
  ultimately show ?thesis
    using assms by (simp add: isMarked_toggle distinct_toggle)
qed

theorem selection_count_and_toggle_witness:
  "distinct (map fst [(''A'', True), (''B'', False), (''C'', True)])
   \<and> selectedCount [(''A'', True), (''B'', False), (''C'', True)] = 2
   \<and> card {k. map_of [(''A'', True), (''B'', False), (''C'', True)] k = Some True} = 2
   \<and> isMarked (toggle ''B'' [(''A'', True), (''B'', False), (''C'', True)]) ''B''
   \<and> map_of [(''A'', True), (''B'', False), (''C'', True)] ''D'' = None
   \<and> map_of (toggle ''D'' [(''A'', True), (''B'', False), (''C'', True)]) ''D'' = Some True
   \<and> \<not> isMarked (toggle ''D'' (toggle ''D'' [(''A'', True), (''B'', False), (''C'', True)])) ''D''"
proof -
  let ?m = "[(''A'', True), (''B'', False), (''C'', True)]"
  have d: "distinct (map fst ?m)" by simp
  have c: "selectedCount ?m = 2" by (simp add: selectedCount_def)
  have n: "map_of ?m ''D'' = None" by simp
  have b: "\<not> isMarked ?m ''B''" by (simp add: isMarked_def)
  have dd: "\<not> isMarked ?m ''D''" by (simp add: isMarked_def)
  note t1 = selection_count_and_toggle [OF d, of "''B''" "''A''" "''B''"]
  note t2 = selection_count_and_toggle [OF d, of "''D''" "''A''" "''D''"]
  from t1 c have "card {k. map_of ?m k = Some True} = 2" by simp
  moreover from t1 b have "isMarked (toggle ''B'' ?m) ''B''" by blast
  moreover from t2 n have "map_of (toggle ''D'' ?m) ''D'' = Some True" by blast
  moreover from t2 dd have "\<not> isMarked (toggle ''D'' (toggle ''D'' ?m)) ''D''" by blast
  ultimately show ?thesis using d c n by blast
qed

section \<open>Bulk delete\<close>

lemma handleSave_guarded:
  "isSaving s \<or> itemsToDelete (deleteMap s) = [] \<Longrightarrow> handleSave w s = (s, None)"
  by (auto simp: handleSave_def)

lemma handleSave_started:
  "\<not> isSaving s \<Longrightarrow> itemsToDelete (deleteMap s) \<noteq> [] \<Longrightarrow>
   handleSave w s =
     (s\<lparr>isSaving := True,
        calls := calls s @ [BulkDeleteFromWatchlist w (itemsToDelete (deleteMap s)) (username s)]\<rparr>,
      Some (AwaitBulkDelete w (itemsToDelete (deleteMap s)) (stocks s)))"
  by (simp add: handleSave_def Let_def)

text \<open>
  Claim C6.  While a save is in flight, or when no key is marked, \<open>handleSave\<close>
  returns the state it was given and suspends nothing: no remote call, no change.
\<close>

theorem handleSave_guard_noop:
  assumes "isSaving s \<or> itemsToDelete (deleteMap s) = []"
  shows "handleSave w s = (s, None) \<and> complete r (handleSave w s) = s"
  using assms by (simp add: handleSave_guarded complete_def)

lemma marked_fields:
  "deleteMap marked = [(''A'', True), (''C'', True)]"
  "stocks marked = abcd"
  "isSaving marked = False"
  "lastOrderRef marked = [''A'', ''B'', ''C'', ''D'']"
  "calls marked = []"
  "username marked = ''user''"
  "store marked ''wl'' = Some abcd"
  by (simp_all add: marked_def loaded_fields toggle_def isMarked_def)

theorem handleSave_guard_noop_witness:
  "isSaving (marked\<lparr>isSaving := True\<rparr>)
   \<and> handleSave ''wl'' (marked\<lparr>isSaving := True\<rparr>) = (marked\<lparr>isSaving := True\<rparr>, None)
   \<and> itemsToDelete (deleteMap (loaded\<lparr>deleteMap := toggle ''A'' (toggle ''A'' [])\<rparr>)) = []
   \<and> handleSave ''wl'' (loaded\<lparr>deleteMap := toggle ''A'' (toggle ''A'' [])\<rparr>)
       = (loaded\<lparr>deleteMap := toggle ''A'' (toggle ''A'' [])\<rparr>, None)"
proof -
  have h1: "isSaving (marked\<lparr>isSaving := True\<rparr>)" by simp
  have h2: "itemsToDelete (deleteMap (loaded\<lparr>deleteMap := toggle ''A'' (toggle ''A'' [])\<rparr>)) = []"
    by (simp add: toggle_def isMarked_def itemsToDelete_def)
  from handleSave_guard_noop [of "marked\<lparr>isSaving := True\<rparr>" "''wl''" Resolved] h1
  have a: "handleSave ''wl'' (marked\<lparr>isSaving := True\<rparr>) = (marked\<lparr>isSaving := True\<rparr>, None)"
    by blast
  from handleSave_guard_noop [of "loaded\<lparr>deleteMap := toggle ''A'' (toggle ''A'' [])\<rparr>" "''wl''" Resolved] h2
  have b: "handleSave ''wl'' (loaded\<lparr>deleteMap := toggle ''A'' (toggle ''A'' [])\<rparr>)
       = (loaded\<lparr>deleteMap := toggle ''A'' (toggle ''A'' [])\<rparr>, None)"
    by blast
  from h1 a h2 b show ?thesis by blast
qed

text \<open>
  When the bulk delete resolves before anything else happens, \<open>stocks\<close> is the
  list without the items whose token was in the snapshot, in the same relative order;
  this list is written to the shared store, \<open>lastOrderRef\<close> follows it, the marks
  are cleared, the saving flag is released and \<open>goBack\<close> is called.
\<close>

theorem handleSave_success:
  assumes "\<not> isSaving s" and "itemsToDelete (deleteMap s) \<noteq> []"
  shows "stocks (complete Resolved (handleSave w s)) =
        filter (\<lambda>x. keyExtractor x \<notin> set (itemsToDelete (deleteMap s))) (stocks s)
    \<and> (distinct (map fst (deleteMap s)) \<longrightarrow>
        stocks (complete Resolved (handleSave w s)) =
          filter (\<lambda>x. \<not> isMarked (deleteMap s) (keyExtractor x)) (stocks s))
    \<and> subseq (stocks (complete Resolved (handleSave w s))) (stocks s)
    \<and> store (complete Resolved (handleSave w s)) w =
        Some (stocks (complete Resolved (handleSave w s)))
    \<and> lastOrderRef (complete Resolved (handleSave w s)) =
        map keyExtractor (stocks (complete Resolved (handleSave w s)))
    \<and> deleteMap (complete Resolved (handleSave w s)) = []
    \<and> isSaving (complete Resolved (handleSave w s)) = False
    \<and> calls (complete Resolved (handleSave w s)) =
        calls s @ [BulkDeleteFromWatchlist w (itemsToDelete (deleteMap s)) (username s),
                   SetData w (stocks (complete Resolved (handleSave w s))),
                   GoBack]"
proof -
  have "distinct (map fst (deleteMap s)) \<longrightarrow>
      filter (\<lambda>x. keyExtractor x \<notin> set (itemsToDelete (deleteMap s))) (stocks s) =
      filter (\<lambda>x. \<not> isMarked (deleteMap s) (keyExtractor x)) (stocks s)"
    by (simp add: set_itemsToDelete)
  then show ?thesis
    using assms by (simp add: handleSave_started complete_def setData_def Let_def)
qed

theorem handleSave_success_witness:
  "\<not> isSaving marked
   \<and> itemsToDelete (deleteMap marked) = [''A'', ''C'']
   \<and> stocks marked = [entry ''A'', entry ''B'', entry ''C'', entry ''D'']
   \<and> stocks (complete Resolved (handleSave ''wl'' marked)) = [entry ''B'', entry ''D'']
   \<and> deleteMap (complete Resolved (handleSave ''wl'' marked)) = []
   \<and> store (complete Resolved (handleSave ''wl'' marked)) ''wl'' = Some [entry ''B'', entry ''D'']
   \<and> calls (complete Resolved (handleSave ''wl'' marked)) =
        [BulkDeleteFromWatchlist ''wl'' [''A'', ''C''] ''user'',
         SetData ''wl'' [entry ''B'', entry ''D''], GoBack]"
proof -
  have h1: "\<not> isSaving marked" by (simp add: marked_fields)
  have it: "itemsToDelete (deleteMap marked) = [''A'', ''C'']"
    by (simp add: marked_fields itemsToDelete_def)
  then have h2: "itemsToDelete (deleteMap marked) \<noteq> []" by simp
  have f: "filter (\<lambda>x. keyExtractor x \<notin> set [''A'', ''C'']) abcd = [entry ''B'', entry ''D'']"
    by (simp add: abcd_def entry_def keyExtractor_def)
  have it': "itemsToDelete [(''A'', True), (''C'', True)] = [''A'', ''C'']"
    by (simp add: itemsToDelete_def)
  note t = handleSave_success [OF h1 h2, of "''wl''", unfolded marked_fields it' f]
  from t have st: "stocks (complete Resolved (handleSave ''wl'' marked)) = [entry ''B'', entry ''D'']"
    by blast
  from t have dm: "deleteMap (complete Resolved (handleSave ''wl'' marked)) = []"
    by blast
  from t have sh: "store (complete Resolved (handleSave ''wl'' marked)) ''wl'' =
      Some (stocks (complete Resolved (handleSave ''wl'' marked)))"
    by blast
  from t have cl: "calls (complete Resolved (handleSave ''wl'' marked)) =
      [] @ [BulkDeleteFromWatchlist ''wl'' [''A'', ''C''] ''user'',
            SetData ''wl'' (stocks (complete Resolved (handleSave ''wl'' marked))), GoBack]"
    by blast
  have sm: "stocks marked = [entry ''A'', entry ''B'', entry ''C'', entry ''D'']"
    by (simp add: marked_fields abcd_def)
  from h1 it sm st dm sh cl show ?thesis
    by simp
qed

text \<open>
  Claim C4.  When the bulk delete is rejected, \<open>stocks\<close>, \<open>lastOrderRef\<close>,
  the marks and the shared store are as before, the error modal shows the fixed
  message, the saving flag is false again, and a second \<open>handleSave\<close> right after
  passes the guard and issues the delete call again.
\<close>

theorem handleSave_failure:
  assumes "\<not> isSaving s" and "itemsToDelete (deleteMap s) \<noteq> []"
  shows "stocks (complete Rejected (handleSave w s)) = stocks s
    \<and> lastOrderRef (complete Rejected (handleSave w s)) = lastOrderRef s
    \<and> deleteMap (complete Rejected (handleSave w s)) = deleteMap s
    \<and> store (complete Rejected (handleSave w s)) = store s
    \<and> errorModal (complete Rejected (handleSave w s)) =
        \<lparr>visible = True, title = ''Error'', message = ''Failed to delete items''\<rparr>
    \<and> isSaving (complete Rejected (handleSave w s)) = False
    \<and> calls (complete Rejected (handleSave w s)) =
        calls s @ [BulkDeleteFromWatchlist w (itemsToDelete (deleteMap s)) (username s),
                   ConsoleError ''Error deleting:'']
    \<and> snd (handleSave w (complete Rejected (handleSave w s))) =
        Some (AwaitBulkDelete w (itemsToDelete (deleteMap s)) (stocks s))
    \<and> calls (fst (handleSave w (complete Rejected (handleSave w s)))) =
        calls (complete Rejected (handleSave w s)) @
          [BulkDeleteFromWatchlist w (itemsToDelete (deleteMap s)) (username s)]"
proof -
  let ?s' = "complete Rejected (handleSave w s)"
  have fields: "stocks ?s' = stocks s" "lastOrderRef ?s' = lastOrderRef s"
    "deleteMap ?s' = deleteMap s" "store ?s' = store s" "username ?s' = username s"
    "errorModal ?s' = \<lparr>visible = True, title = ''Error'', message = ''Failed to delete items''\<rparr>"
    "isSaving ?s' = False"
    "calls ?s' = calls s @ [BulkDeleteFromWatchlist w (itemsToDelete (deleteMap s)) (username s),
                   ConsoleError ''Error deleting:'']"
    using assms by (simp_all add: handleSave_started complete_def Let_def)
  have again: "handleSave w ?s' =
     (?s'\<lparr>isSaving := True,
        calls := calls ?s' @ [BulkDeleteFromWatchlist w (itemsToDelete (deleteMap s)) (username s)]\<rparr>,
      Some (AwaitBulkDelete w (itemsToDelete (deleteMap s)) (stocks s)))"
    using assms(2) handleSave_started [of ?s' w] by (simp only: fields simp_thms)
  show ?thesis
    by (simp add: fields again)
qed

theorem handleSave_failure_witness:
  "\<not> isSaving marked
   \<and> itemsToDelete (deleteMap marked) \<noteq> []
   \<and> stocks (complete Rejected (handleSave ''wl'' marked)) = abcd
   \<and> deleteMap (complete Rejected (handleSave ''wl'' marked)) = [(''A'', True), (''C'', True)]
   \<and> lastOrderRef (complete Rejected (handleSave ''wl'' marked)) = [''A'', ''B'', ''C'', ''D'']
   \<and> message (errorModal (complete Rejected (handleSave ''wl'' marked))) = ''Failed to delete items''
   \<and> \<not> isSaving (complete Rejected (handleSave ''wl'' marked))
   \<and> snd (handleSave ''wl'' (complete Rejected (handleSave ''wl'' marked))) =
       Some (AwaitBulkDelete ''wl'' [''A'', ''C''] abcd)"
proof -
  have h1: "\<not> isSaving marked" by (simp add: marked_fields)
  have it: "itemsToDelete (deleteMap marked) = [''A'', ''C'']"
    by (simp add: marked_fields itemsToDelete_def)
  then have h2: "itemsToDelete (deleteMap marked) \<noteq> []" by simp
  from handleSave_failure [OF h1 h2, of "''wl''"] h1 h2 it show ?thesis
    by (simp add: marked_fields)
qed

section \<open>Lifecycle\<close>

text \<open>
  Claim C9.  The cleanup cancels the deferred task (a cancelled task does nothing when
  its turn comes), empties \<open>stocks\<close>, clears the marks and resets the ready flag,
  whatever the state.  After the effect has run again and its task has loaded, no key
  is marked, and \<open>stocks\<close> and \<open>lastOrderRef\<close> are what the shared store holds
  for the watchlist: nothing of the earlier list, order or marks remains.
\<close>

theorem cleanup_then_entry:
  "task (cleanup s) = False
   \<and> stocks (cleanup s) = []
   \<and> deleteMap (cleanup s) = []
   \<and> isReady (cleanup s) = False
   \<and> runTask w (cleanup s) = cleanup s
   \<and> deleteMap (runTask w (scheduleTask (cleanup s))) = []
   \<and> isMarked (deleteMap (runTask w (scheduleTask (cleanup s)))) k = False
   \<and> selectedCount (deleteMap (runTask w (scheduleTask (cleanup s)))) = 0
   \<and> stocks (runTask w (scheduleTask (cleanup s))) = peekData w s
   \<and> lastOrderRef (runTask w (scheduleTask (cleanup s))) = map keyExtractor (peekData w s)
   \<and> isReady (runTask w (scheduleTask (cleanup s))) = True"
  by (simp add: cleanup_def runTask_def scheduleTask_def peekData_def Let_def
      isMarked_def selectedCount_def)

section \<open>The remembered order and the list\<close>

lemma run_snoc: "run w c (evs @ [e]) = step w (run w c evs) e"
  by (simp add: run_def)

lemma settle_order:
  assumes "lastOrderRef s = map keyExtractor (stocks s) \<or> (stocks s = [] \<and> \<not> isReady s)"
  shows "lastOrderRef (settle r p s) = map keyExtractor (stocks (settle r p s))
    \<or> (stocks (settle r p s) = [] \<and> \<not> isReady (settle r p s))"
  using assms by (cases r; cases p) (simp_all add: setData_def Let_def)

lemma settle_order_eq:
  assumes "lastOrderRef s = map keyExtractor (stocks s)"
  shows "lastOrderRef (settle r p s) = map keyExtractor (stocks (settle r p s))"
  using assms by (cases r; cases p) (simp_all add: setData_def Let_def)

lemma onDragEnd_order_eq:
  "lastOrderRef s = map keyExtractor (stocks s) \<or> (stocks s = [] \<and> \<not> isReady s) \<Longrightarrow>
   lastOrderRef (fst (onDragEnd w newOrder s)) = map keyExtractor (stocks (fst (onDragEnd w newOrder s)))
    \<or> (stocks (fst (onDragEnd w newOrder s)) = [] \<and> \<not> isReady (fst (onDragEnd w newOrder s)))"
  by (simp add: onDragEnd_def Let_def)

lemma step_order:
  assumes "lastOrderRef s = map keyExtractor (stocks s) \<or> (stocks s = [] \<and> \<not> isReady s)"
  shows "lastOrderRef (fst (step w (s, ps) e)) = map keyExtractor (stocks (fst (step w (s, ps) e)))
    \<or> (stocks (fst (step w (s, ps) e)) = [] \<and> \<not> isReady (fst (step w (s, ps) e)))"
proof (cases e)
  case Effect
  with assms show ?thesis by (simp add: scheduleTask_def)
next
  case Task
  with assms show ?thesis by (simp add: runTask_def Let_def)
next
  case Cleanup
  then show ?thesis by (simp add: cleanup_def)
next
  case (Toggle k)
  with assms show ?thesis by simp
next
  case (DragEnd newOrder)
  with onDragEnd_order_eq [OF assms, of w newOrder] show ?thesis
    by (simp add: suspend_def)
next
  case Save
  with assms show ?thesis by (simp add: suspend_def handleSave_def Let_def)
next
  case (Settle i r)
  with settle_order [OF assms, of r "ps ! i"] assms show ?thesis by simp
qed

lemma step_order_eq:
  assumes "lastOrderRef s = map keyExtractor (stocks s)" and "e \<noteq> Cleanup"
  shows "lastOrderRef (fst (step w (s, ps) e)) = map keyExtractor (stocks (fst (step w (s, ps) e)))"
proof (cases e)
  case Effect
  with assms show ?thesis by (simp add: scheduleTask_def)
next
  case Task
  with assms show ?thesis by (simp add: runTask_def Let_def)
next
  case Cleanup
  with assms show ?thesis by simp
next
  case (Toggle k)
  with assms show ?thesis by simp
next
  case (DragEnd newOrder)
  with assms show ?thesis by (simp add: suspend_def onDragEnd_def Let_def)
next
  case Save
  with assms show ?thesis by (simp add: suspend_def handleSave_def Let_def)
next
  case (Settle i r)
  with settle_order_eq [OF assms(1), of r "ps ! i"] assms show ?thesis by simp
qed

lemma run_order:
  assumes "lastOrderRef (fst c) = map keyExtractor (stocks (fst c))
    \<or> (stocks (fst c) = [] \<and> \<not> isReady (fst c))"
  shows "lastOrderRef (fst (run w c evs)) = map keyExtractor (stocks (fst (run w c evs)))
    \<or> (stocks (fst (run w c evs)) = [] \<and> \<not> isReady (fst (run w c evs)))"
proof (induction evs rule: rev_induct)
  case Nil
  from assms show ?case by (simp add: run_def)
next
  case (snoc e evs)
  obtain s ps where c: "run w c evs = (s, ps)" by (cases "run w c evs")
  with snoc step_order [of s w ps e] show ?case
    by (simp add: run_snoc)
qed

lemma run_order_eq:
  assumes "lastOrderRef (fst c) = map keyExtractor (stocks (fst c))" and "Cleanup \<notin> set evs"
  shows "lastOrderRef (fst (run w c evs)) = map keyExtractor (stocks (fst (run w c evs)))"
  using assms(2)
proof (induction evs rule: rev_induct)
  case Nil
  from assms(1) show ?case by (simp add: run_def)
next
  case (snoc e evs)
  obtain s ps where c: "run w c evs = (s, ps)" by (cases "run w c evs")
  with snoc step_order_eq [of s e w ps] show ?case
    by (auto simp: run_snoc)
qed

text \<open>
  Claim C8, as amended.  In every state the screen reaches from its mount,
  \<open>lastOrderRef\<close> is the token sequence of \<open>stocks\<close>, or else \<open>stocks\<close> is empty
  and the ready flag is false, which is the state the cleanup leaves: it empties
  \<open>stocks\<close> and does not touch \<open>lastOrderRef\<close>.  The load, a reorder and a bulk
  delete each set both together, so along a run without cleanup the two agree in
  every state (as sequences, hence as sets), also while a rearrange call is in flight.
\<close>

theorem lastOrder_follows_stocks:
  "(lastOrderRef (fst (run w (initial st u, []) evs)) =
      map keyExtractor (stocks (fst (run w (initial st u, []) evs)))
    \<or> (stocks (fst (run w (initial st u, []) evs)) = []
        \<and> \<not> isReady (fst (run w (initial st u, []) evs))))
   \<and> (Cleanup \<notin> set evs \<longrightarrow>
        lastOrderRef (fst (run w (initial st u, []) evs)) =
          map keyExtractor (stocks (fst (run w (initial st u, []) evs)))
        \<and> set (lastOrderRef (fst (run w (initial st u, []) evs))) =
          keyExtractor ` set (stocks (fst (run w (initial st u, []) evs))))"
proof -
  have i: "lastOrderRef (fst (initial st u, [])) = map keyExtractor (stocks (fst (initial st u, [])))"
    by (simp add: initial_def)
  have e: "lastOrderRef (fst (run w (initial st u, []) evs)) =
          map keyExtractor (stocks (fst (run w (initial st u, []) evs)))"
    if "Cleanup \<notin> set evs"
    using i that by (rule run_order_eq)
  have "set (lastOrderRef (fst (run w (initial st u, []) evs))) =
          keyExtractor ` set (stocks (fst (run w (initial st u, []) evs)))"
    if "Cleanup \<notin> set evs"
    by (simp only: e [OF that] set_map)
  with e run_order [of "(initial st u, [])" w evs] i
  show ?thesis by blast
qed

lemma run_demo:
  "fst (run ''wl'' (fresh, []) [Effect, Task]) = loaded"
  by (simp add: run_def loaded_def)

theorem lastOrder_follows_stocks_witness:
  "Cleanup \<notin> set [Effect, Task]
   \<and> isReady (fst (run ''wl'' (fresh, []) [Effect, Task]))
   \<and> stocks (fst (run ''wl'' (fresh, []) [Effect, Task])) = abcd
   \<and> lastOrderRef (fst (run ''wl'' (fresh, []) [Effect, Task])) =
       map keyExtractor (stocks (fst (run ''wl'' (fresh, []) [Effect, Task])))"
proof -
  have h: "Cleanup \<notin> set [Effect, Task]" by simp
  from lastOrder_follows_stocks [of "''wl''" "[''wl'' \<mapsto> abcd]" "''user''" "[Effect, Task]", folded fresh_def] h
  have "lastOrderRef (fst (run ''wl'' (fresh, []) [Effect, Task])) =
       map keyExtractor (stocks (fst (run ''wl'' (fresh, []) [Effect, Task])))"
    by blast
  with h show ?thesis
    by (simp add: run_demo loaded_fields)
qed

text \<open>
  Claim C8 as stated fails at the cleanup: after the load of the sample watchlist the
  tokens of \<open>lastOrderRef\<close> and of \<open>stocks\<close> are the same set, no handler is
  suspended, and after the cleanup \<open>stocks\<close> is empty while \<open>lastOrderRef\<close> still
  holds A, B, C, D.
\<close>

theorem cleanup_keeps_lastOrder_counterexample:
  "run ''wl'' (fresh, []) [Effect, Task] = (loaded, [])
   \<and> set (lastOrderRef loaded) = keyExtractor ` set (stocks loaded)
   \<and> run ''wl'' (fresh, []) [Effect, Task, Cleanup] = (cleanup loaded, [])
   \<and> stocks (cleanup loaded) = []
   \<and> lastOrderRef (cleanup loaded) = [''A'', ''B'', ''C'', ''D'']
   \<and> set (lastOrderRef (cleanup loaded)) \<noteq> keyExtractor ` set (stocks (cleanup loaded))"
proof -
  have a: "run ''wl'' (fresh, []) [Effect, Task] = (loaded, [])"
    by (simp add: run_def loaded_def)
  have b: "set (lastOrderRef loaded) = keyExtractor ` set (stocks loaded)"
    by (simp only: loaded_fields keys_abcd [symmetric] set_map)
  have c: "run ''wl'' (fresh, []) [Effect, Task, Cleanup] =
      (cleanup loaded, [])"
    by (simp add: run_def loaded_def)
  have d: "stocks (cleanup loaded) = []"
    by (simp add: cleanup_def)
  have e: "lastOrderRef (cleanup loaded) = [''A'', ''B'', ''C'', ''D'']"
    by (simp add: cleanup_def loaded_fields)
  have f: "set (lastOrderRef (cleanup loaded)) \<noteq> keyExtractor ` set (stocks (cleanup loaded))"
    by (simp add: d e)
  from a b c d e f show ?thesis by blast
qed

text \<open>
  The marks keep one entry per key in every state the screen reaches, which is the
  hypothesis of the counting theorem above.
\<close>

lemma run_distinct_marks:
  "distinct (map fst (deleteMap (fst c))) \<Longrightarrow>
   distinct (map fst (deleteMap (fst (run w c evs))))"
proof (induction evs rule: rev_induct)
  case Nil
  then show ?case by (simp add: run_def)
next
  case (snoc e evs)
  obtain s ps where c: "run w c evs = (s, ps)" by (cases "run w c evs")
  have "distinct (map fst (deleteMap (settle r p s)))" if "distinct (map fst (deleteMap s))" for r p
    using that by (cases r; cases p) (simp_all add: setData_def Let_def)
  with snoc c show ?case
    by (cases e)
      (simp_all add: run_snoc scheduleTask_def runTask_def cleanup_def distinct_toggle
        suspend_def onDragEnd_def handleSave_def Let_def)
qed

section \<open>Bulk delete with a drag in flight\<close>

text \<open>
  The resolved continuation of \<open>handleSave\<close> filters the \<open>stocks\<close> its closure
  captured when Save was pressed, whatever the state is by then.
\<close>

lemma settle_delete_resolved_stocks:
  "stocks (settle Resolved (AwaitBulkDelete w items captured) s') =
     filter (\<lambda>x. keyExtractor x \<notin> set items) captured
   \<and> store (settle Resolved (AwaitBulkDelete w items captured) s') w =
     Some (filter (\<lambda>x. keyExtractor x \<notin> set items) captured)
   \<and> lastOrderRef (settle Resolved (AwaitBulkDelete w items captured) s') =
     map keyExtractor (filter (\<lambda>x. keyExtractor x \<notin> set items) captured)
   \<and> deleteMap (settle Resolved (AwaitBulkDelete w items captured) s') = []
   \<and> isSaving (settle Resolved (AwaitBulkDelete w items captured) s') = False"
  by (simp add: setData_def Let_def)

lemma run_marked: "run ''wl'' (fresh, []) [Effect, Task, Toggle ''A'', Toggle ''C''] = (marked, [])"
  by (simp add: run_def marked_def loaded_def)

lemma run_append: "run w c (evs @ evs') = run w (run w c evs) evs'"
  by (simp add: run_def)

lemma save_marked:
  "handleSave ''wl'' marked =
     (marked\<lparr>isSaving := True,
        calls := [BulkDeleteFromWatchlist ''wl'' [''A'', ''C''] ''user'']\<rparr>,
      Some (AwaitBulkDelete ''wl'' [''A'', ''C''] abcd))"
  by (simp add: handleSave_def Let_def marked_fields itemsToDelete_def)

lemma drag_rev:
  "lastOrderRef s = [''A'', ''B'', ''C'', ''D''] \<Longrightarrow>
   onDragEnd ''wl'' (rev abcd) s =
     (s\<lparr>stocks := rev abcd, lastOrderRef := [''D'', ''C'', ''B'', ''A''],
        calls := calls s @ [RearrangeWatchlist ''wl'' [''D'', ''C'', ''B'', ''A''] (username s)]\<rparr>,
      Some (AwaitRearrange ''wl'' (rev abcd)))"
  by (simp add: onDragEnd_def Let_def dcba hasChanged_def)

lemma run_dragDuringSave:
  "run ''wl'' (fresh, []) dragDuringSave =
     (marked\<lparr>isSaving := True, stocks := rev abcd, lastOrderRef := [''D'', ''C'', ''B'', ''A''],
        calls := [BulkDeleteFromWatchlist ''wl'' [''A'', ''C''] ''user'',
                  RearrangeWatchlist ''wl'' [''D'', ''C'', ''B'', ''A''] ''user'']\<rparr>,
      [AwaitBulkDelete ''wl'' [''A'', ''C''] abcd, AwaitRearrange ''wl'' (rev abcd)])"
proof -
  have "run ''wl'' (fresh, []) dragDuringSave =
      run ''wl'' (marked, []) [Save, DragEnd (rev abcd)]"
    using run_append [of "''wl''" "(fresh, [])" "[Effect, Task, Toggle ''A'', Toggle ''C'']"
        "[Save, DragEnd (rev abcd)]"]
    by (simp add: dragDuringSave_def run_marked)
  also have "\<dots> = suspend [AwaitBulkDelete ''wl'' [''A'', ''C''] abcd]
      (onDragEnd ''wl'' (rev abcd)
        (marked\<lparr>isSaving := True,
           calls := [BulkDeleteFromWatchlist ''wl'' [''A'', ''C''] ''user'']\<rparr>))"
    by (simp add: run_def save_marked suspend_def)
  also have "\<dots> = (marked\<lparr>isSaving := True, stocks := rev abcd,
        lastOrderRef := [''D'', ''C'', ''B'', ''A''],
        calls := [BulkDeleteFromWatchlist ''wl'' [''A'', ''C''] ''user'',
                  RearrangeWatchlist ''wl'' [''D'', ''C'', ''B'', ''A''] ''user'']\<rparr>,
      [AwaitBulkDelete ''wl'' [''A'', ''C''] abcd, AwaitRearrange ''wl'' (rev abcd)])"
    by (simp add: drag_rev marked_fields suspend_def)
  finally show ?thesis .
qed

text \<open>
  Claim C3 says that a successful bulk delete removes the snapshot from the list as
  it is, keeping the order of the survivors, and shares the result.  On the run
  \<open>dragDuringSave\<close> the list is D, C, B, A and two handlers are suspended when the
  delete call resolves; the handler then sets \<open>stocks\<close> and the shared store to
  B, D, the survivors of the list it captured, and not to D, B: what it stores is not
  a subsequence of the list on screen.
\<close>

theorem handleSave_filters_captured_stocks:
  "stocks (fst (run ''wl'' (fresh, []) dragDuringSave)) =
     [entry ''D'', entry ''C'', entry ''B'', entry ''A'']
   \<and> snd (run ''wl'' (fresh, []) dragDuringSave) =
     [AwaitBulkDelete ''wl'' [''A'', ''C''] abcd, AwaitRearrange ''wl'' (rev abcd)]
   \<and> stocks (fst (run ''wl'' (fresh, []) (dragDuringSave @ [Settle 0 Resolved]))) =
     [entry ''B'', entry ''D'']
   \<and> store (fst (run ''wl'' (fresh, []) (dragDuringSave @ [Settle 0 Resolved]))) ''wl'' =
     Some [entry ''B'', entry ''D'']
   \<and> stocks (fst (run ''wl'' (fresh, []) (dragDuringSave @ [Settle 0 Resolved]))) \<noteq>
     [entry ''D'', entry ''B'']
   \<and> \<not> subseq (stocks (fst (run ''wl'' (fresh, []) (dragDuringSave @ [Settle 0 Resolved]))))
       (stocks (fst (run ''wl'' (fresh, []) dragDuringSave)))"
proof -
  have f: "filter (\<lambda>x. keyExtractor x \<notin> set [''A'', ''C'']) abcd = [entry ''B'', entry ''D'']"
    by (simp add: abcd_def entry_def keyExtractor_def)
  have a: "stocks (fst (run ''wl'' (fresh, []) dragDuringSave)) =
     [entry ''D'', entry ''C'', entry ''B'', entry ''A'']"
    by (simp add: run_dragDuringSave abcd_def)
  have b: "snd (run ''wl'' (fresh, []) dragDuringSave) =
     [AwaitBulkDelete ''wl'' [''A'', ''C''] abcd, AwaitRearrange ''wl'' (rev abcd)]"
    by (simp add: run_dragDuringSave)
  have r: "fst (run ''wl'' (fresh, []) (dragDuringSave @ [Settle 0 Resolved])) =
      settle Resolved (AwaitBulkDelete ''wl'' [''A'', ''C''] abcd)
        (fst (run ''wl'' (fresh, []) dragDuringSave))"
    by (simp add: run_snoc run_dragDuringSave del: settle.simps)
  have c: "stocks (fst (run ''wl'' (fresh, []) (dragDuringSave @ [Settle 0 Resolved]))) =
     [entry ''B'', entry ''D'']"
    by (simp only: r settle_delete_resolved_stocks f)
  have d: "store (fst (run ''wl'' (fresh, []) (dragDuringSave @ [Settle 0 Resolved]))) ''wl'' =
     Some [entry ''B'', entry ''D'']"
    by (simp only: r settle_delete_resolved_stocks f)
  have e: "[entry ''B'', entry ''D''] \<noteq> [entry ''D'', entry ''B'']"
    by (simp add: entry_def)
  have g: "\<not> subseq [entry ''B'', entry ''D'']
      [entry ''D'', entry ''C'', entry ''B'', entry ''A'']"
    by (simp add: entry_def)
  from a b c d e g show ?thesis
    by (simp only: simp_thms)
qed

end
